theory Spec2Isabelle
  imports Main "HOL-Library.Sublist" "HOL-Library.Multiset"
begin

section \<open>lazylinear: the view state of the terminal dashboard\<close>

text \<open>
  The embedding follows \<^verbatim>\<open>internal/api/client.go\<close> (the version whose
  \<^verbatim>\<open>GetIssues\<close> takes a team id) and \<^verbatim>\<open>internal/ui/ui.go\<close> (the version
  with the team bar, \<^verbatim>\<open>copyURL\<close> and \<^verbatim>\<open>copyBranch\<close>).

  Go strings are byte sequences, so a Go \<^verbatim>\<open>string\<close> is a \<^typ>\<open>string\<close> here: a list of
  8-bit characters, the UTF-8 bytes of the text. Go's \<^verbatim>\<open>int\<close> is \<^typ>\<open>int\<close>: the two
  counters of the program (\<^verbatim>\<open>currentView\<close>, \<^verbatim>\<open>currentTeam\<close>) move by one and are
  compared with a slice length after every move, so they stay far from the 64-bit bounds.
  A Go \<^verbatim>\<open>error\<close> is the text \<^verbatim>\<open>%v\<close> prints for it.
\<close>

subsection \<open>Records of \<^verbatim>\<open>internal/api\<close>\<close>

type_synonym err = string

record Comment =
  Body :: string
  CreatedAt :: string
  User_Name :: string

text \<open>
  \<^verbatim>\<open>Issue\<close> has nested structs \<^verbatim>\<open>State\<close>, \<^verbatim>\<open>Assignee\<close> and \<^verbatim>\<open>Comments\<close>; their
  fields are flattened with the struct name as prefix. A JSON \<^verbatim>\<open>null\<close> assignee
  decodes to the zero struct: both \<open>Assignee_ID\<close> and \<open>Assignee_Name\<close> empty.
\<close>

record Issue =
  ID :: string
  Identifier :: string
  Title :: string
  Description :: string
  URL :: string
  BranchName :: string
  State_Name :: string
  Assignee_ID :: string
  Assignee_Name :: string
  Comments_Nodes :: "Comment list"

record Viewer =
  Viewer_ID :: string
  Viewer_Name :: string

record Team =
  Team_ID :: string
  Team_Name :: string
  Team_Key :: string

record Client =
  apiKey :: string

text \<open>The zero value \<^verbatim>\<open>api.Issue{}\<close> with only \<^verbatim>\<open>Title\<close> set.\<close>

definition Issue_with_Title :: "string \<Rightarrow> Issue" where
  "Issue_with_Title t =
     \<lparr>ID = [], Identifier = [], Title = t, Description = [], URL = [], BranchName = [],
      State_Name = [], Assignee_ID = [], Assignee_Name = [], Comments_Nodes = []\<rparr>"

subsection \<open>The functions of package \<^verbatim>\<open>strings\<close> the program calls\<close>

text \<open>
  These are Go's library, not this repository.

  \<^verbatim>\<open>strings.ToLower\<close> lowercases code point by code point with the Unicode case
  tables. The tables are not modelled: every function below that filters takes the
  lowercasing as its first argument \<open>toLower\<close>, and what is proved of it holds for any
  function in that place, Go's among them. \<open>asciiLower\<close> is the lowercasing of a text
  of ASCII bytes, where \<^verbatim>\<open>strings.ToLower\<close> changes the bytes A to Z and no other; it
  stands for \<open>toLower\<close> in the examples only, whose titles and search texts are ASCII.
\<close>

type_synonym lowercasing = "string \<Rightarrow> string"

definition toLowerByte :: "char \<Rightarrow> char" where
  "toLowerByte c =
     (if (65::nat) \<le> of_char c \<and> of_char c \<le> (90::nat)
      then char_of (of_char c + (32::nat)) else c)"

definition asciiLower :: lowercasing where
  "asciiLower s = map toLowerByte s"

text \<open>\<^verbatim>\<open>strings.HasPrefix\<close> and \<^verbatim>\<open>strings.Contains\<close> compare bytes.\<close>

fun HasPrefix :: "string \<Rightarrow> string \<Rightarrow> bool" where
  "HasPrefix s [] = True"
| "HasPrefix [] (p # ps) = False"
| "HasPrefix (c # s) (p # ps) = (c = p \<and> HasPrefix s ps)"

fun Contains :: "string \<Rightarrow> string \<Rightarrow> bool" where
  "Contains [] substr = (substr = [])"
| "Contains (c # s) substr = (HasPrefix (c # s) substr \<or> Contains s substr)"

text \<open>
  White space. \<^verbatim>\<open>unicode.IsSpace\<close> holds of the code points U+0009 to U+000D, U+0020,
  U+0085, U+00A0, U+1680, U+2000 to U+200A, U+2028, U+2029, U+202F, U+205F and U+3000;
  \<open>spaceRunes\<close> lists their UTF-8 encodings. The first byte of each encoding is below
  128 or a lead byte, which no decoded code point has after its first byte, and the
  bytes after it are continuation bytes: wherever one of the encodings occurs in a text,
  Go's decoder reads it there as that code point, forwards and backwards, also when the
  text around it is not valid UTF-8. No encoding is a prefix of another.
\<close>

definition spaceRunes :: "string list" where
  "spaceRunes =
     [[CHR 0x09], [CHR 0x0A], [CHR 0x0B], [CHR 0x0C], [CHR 0x0D], [CHR 0x20],
      [CHR 0xC2, CHR 0x85], [CHR 0xC2, CHR 0xA0], [CHR 0xE1, CHR 0x9A, CHR 0x80],
      [CHR 0xE2, CHR 0x80, CHR 0x80], [CHR 0xE2, CHR 0x80, CHR 0x81],
      [CHR 0xE2, CHR 0x80, CHR 0x82], [CHR 0xE2, CHR 0x80, CHR 0x83],
      [CHR 0xE2, CHR 0x80, CHR 0x84], [CHR 0xE2, CHR 0x80, CHR 0x85],
      [CHR 0xE2, CHR 0x80, CHR 0x86], [CHR 0xE2, CHR 0x80, CHR 0x87],
      [CHR 0xE2, CHR 0x80, CHR 0x88], [CHR 0xE2, CHR 0x80, CHR 0x89],
      [CHR 0xE2, CHR 0x80, CHR 0x8A], [CHR 0xE2, CHR 0x80, CHR 0xA8],
      [CHR 0xE2, CHR 0x80, CHR 0xA9], [CHR 0xE2, CHR 0x80, CHR 0xAF],
      [CHR 0xE2, CHR 0x81, CHR 0x9F], [CHR 0xE3, CHR 0x80, CHR 0x80]]"

text \<open>
  The number of bytes of the code point of \<open>runes\<close> that \<open>s\<close> starts with; 0 when it
  starts with none.
\<close>

definition widthOf :: "string list \<Rightarrow> string \<Rightarrow> nat" where
  "widthOf runes s = (case find (HasPrefix s) runes of None \<Rightarrow> 0 | Some r \<Rightarrow> length r)"

text \<open>Dropping the code points of \<open>runes\<close> a text starts with, one after the other.\<close>

fun dropRunes :: "string list \<Rightarrow> string \<Rightarrow> string" where
  "dropRunes runes [] = []"
| "dropRunes runes (c # s) =
     (let w = widthOf runes (c # s)
      in if w > 0 then dropRunes runes (drop (w - 1) s) else c # s)"

text \<open>
  \<^verbatim>\<open>strings.TrimSpace\<close>: the white space at the start goes, then the white space at
  the end, which is read backwards.
\<close>

definition TrimSpace :: "string \<Rightarrow> string" where
  "TrimSpace s = rev (dropRunes (map rev spaceRunes) (rev (dropRunes spaceRunes s)))"

text \<open>
  \<^verbatim>\<open>strings.Fields\<close>: the maximal runs without white space, in order. \<open>cur\<close> is the
  field being read.
\<close>

fun fieldsFrom :: "string \<Rightarrow> string \<Rightarrow> string list" where
  "fieldsFrom cur [] = (if cur = [] then [] else [cur])"
| "fieldsFrom cur (c # s) =
     (let w = widthOf spaceRunes (c # s)
      in if w > 0
         then (if cur = [] then fieldsFrom [] (drop (w - 1) s)
               else cur # fieldsFrom [] (drop (w - 1) s))
         else fieldsFrom (cur @ [c]) s)"

definition Fields :: "string \<Rightarrow> string list" where
  "Fields s = fieldsFrom [] s"

subsection \<open>\<^verbatim>\<open>GetViewer\<close>, \<^verbatim>\<open>GetTeams\<close>, \<^verbatim>\<open>GetIssues\<close>\<close>

text \<open>
  The GraphQL transport is outside the repository. A request is the query text chosen,
  the variables set with \<^verbatim>\<open>req.Var\<close> and the \<^verbatim>\<open>Authorization\<close> header when one is
  set; \<^verbatim>\<open>c.client.Run\<close> answers with an error or with the decoded \<^verbatim>\<open>nodes\<close>.
\<close>

datatype Query = ViewerQuery | TeamsQuery | IssuesOfTeamQuery | IssuesQuery

record Request =
  Query_of :: Query
  Vars :: "(string \<times> string) list"
  Authorization :: "string option"

record Remote =
  Run_viewer :: "Request \<Rightarrow> err + Viewer"
  Run_teams :: "Request \<Rightarrow> err + Team list"
  Run_issues :: "Request \<Rightarrow> err + Issue list"

definition header :: "Client \<Rightarrow> string option" where
  "header c = (if apiKey c \<noteq> [] then Some (apiKey c) else None)"

definition GetViewer :: "Remote \<Rightarrow> Client \<Rightarrow> err + Viewer" where
  "GetViewer remote c =
     Run_viewer remote \<lparr>Query_of = ViewerQuery, Vars = [], Authorization = header c\<rparr>"

definition GetTeams :: "Remote \<Rightarrow> Client \<Rightarrow> err + Team list" where
  "GetTeams remote c =
     Run_teams remote \<lparr>Query_of = TeamsQuery, Vars = [], Authorization = header c\<rparr>"

definition stateOrder :: "string \<rightharpoonup> int" where
  "stateOrder = map_of
     [(''In Review'', 0), (''In Progress'', 1), (''Blocked'', 2), (''Todo'', 3), (''Backlog'', 4)]"

text \<open>The closure handed to \<^verbatim>\<open>sort.SliceStable\<close>, on the two elements it indexes.\<close>

definition lessByState :: "Issue \<Rightarrow> Issue \<Rightarrow> bool" where
  "lessByState issueI issueJ =
     (let orderI = (case stateOrder (State_Name issueI) of Some n \<Rightarrow> n | None \<Rightarrow> 999);
          orderJ = (case stateOrder (State_Name issueJ) of Some n \<Rightarrow> n | None \<Rightarrow> 999)
      in orderI < orderJ)"

text \<open>
  \<^verbatim>\<open>sort.SliceStable\<close> is Go's library. Its insertion sort takes the elements in slice
  order and moves each one left while it is less than its left neighbour; \<open>sink\<close> is
  that inner loop on the reversed prefix (the left neighbour first). On long slices Go
  sorts blocks this way and merges them, keeping equal elements in order as well.
\<close>

fun sink :: "('a \<Rightarrow> 'a \<Rightarrow> bool) \<Rightarrow> 'a \<Rightarrow> 'a list \<Rightarrow> 'a list" where
  "sink lt x [] = [x]"
| "sink lt x (y # rs) = (if lt x y then y # sink lt x rs else x # y # rs)"

definition SliceStable :: "('a \<Rightarrow> 'a \<Rightarrow> bool) \<Rightarrow> 'a list \<Rightarrow> 'a list" where
  "SliceStable lt xs = rev (foldl (\<lambda>rs x. sink lt x rs) [] xs)"

text \<open>The request \<^verbatim>\<open>GetIssues\<close> builds: the query with the team filter when a team id is given.\<close>

definition issuesRequest :: "Client \<Rightarrow> string \<Rightarrow> Request" where
  "issuesRequest c teamID =
     (if teamID \<noteq> []
      then \<lparr>Query_of = IssuesOfTeamQuery, Vars = [(''teamID'', teamID)],
            Authorization = header c\<rparr>
      else \<lparr>Query_of = IssuesQuery, Vars = [], Authorization = header c\<rparr>)"

definition GetIssues :: "Remote \<Rightarrow> Client \<Rightarrow> string \<Rightarrow> err + Issue list" where
  "GetIssues remote c teamID =
     (case Run_issues remote (issuesRequest c teamID) of
        Inl e \<Rightarrow> Inl e
      | Inr nodes \<Rightarrow> Inr (SliceStable lessByState nodes))"

subsection \<open>The \<^verbatim>\<open>UI\<close> struct\<close>

text \<open>
  The \<^verbatim>\<open>gui\<close> field is the handle of the windowing library; what a handler reads from
  it (the buffer of the search view, the cursor row) is an argument of the handler here.
  \<open>client = None\<close> is the nil pointer.
\<close>

record UI =
  client :: "Client option"
  issues :: "Issue list"
  allIssues :: "Issue list"
  selectedIssue :: int
  showHelp :: bool
  showSearch :: bool
  searchString :: string
  assignedToMe :: bool
  viewerID :: string
  currentView :: int
  views :: "string list"
  teams :: "Team list"
  currentTeam :: int

definition Views :: "string list" where
  "Views = [''All'', ''In Review'', ''In Progress'', ''Blocked'', ''Todo'', ''Backlog'']"

text \<open>
  Indexing a slice, \<^verbatim>\<open>xs[i]\<close>: outside \<open>0 \<le> i < len(xs)\<close> the Go runtime panics,
  which is \<open>None\<close>.
\<close>

definition index :: "'a list \<Rightarrow> int \<Rightarrow> 'a option" where
  "index xs i = (if 0 \<le> i \<and> i < int (length xs) then Some (xs ! nat i) else None)"

subsection \<open>\<^verbatim>\<open>filterIssues\<close>\<close>

text \<open>
  The body of the \<^verbatim>\<open>for ... range ui.allIssues\<close> loop: each \<^verbatim>\<open>continue\<close> goes on with
  \<open>filtered\<close> as it is, the last line appends.
\<close>

fun filterLoop ::
  "lowercasing \<Rightarrow> UI \<Rightarrow> string \<Rightarrow> Issue list \<Rightarrow> Issue list \<Rightarrow> Issue list" where
  "filterLoop toLower ui currentViewName [] filtered = filtered"
| "filterLoop toLower ui currentViewName (issue # rest) filtered =
     (if assignedToMe ui \<and> Assignee_ID issue \<noteq> viewerID ui
        then filterLoop toLower ui currentViewName rest filtered
      else if currentViewName \<noteq> ''All'' \<and> State_Name issue \<noteq> currentViewName
        then filterLoop toLower ui currentViewName rest filtered
      else if searchString ui \<noteq> [] \<and>
              \<not> Contains (toLower (Title issue)) (toLower (searchString ui))
        then filterLoop toLower ui currentViewName rest filtered
      else filterLoop toLower ui currentViewName rest (filtered @ [issue]))"

definition filterIssues :: "lowercasing \<Rightarrow> UI \<Rightarrow> Issue list option" where
  "filterIssues toLower ui =
     (case index (views ui) (currentView ui) of
        None \<Rightarrow> None
      | Some currentViewName \<Rightarrow> Some (filterLoop toLower ui currentViewName (allIssues ui) []))"

subsection \<open>The key handlers\<close>

text \<open>
  Every handler that changes a filter input ends with the two statements
  \<^verbatim>\<open>ui.issues = ui.filterIssues(); ui.selectedIssue = -1\<close>. A panic inside
  \<^verbatim>\<open>filterIssues\<close> ends the program: the handler has no result.
\<close>

definition refilter :: "lowercasing \<Rightarrow> UI \<Rightarrow> UI option" where
  "refilter toLower ui =
     (case filterIssues toLower ui of
        None \<Rightarrow> None
      | Some filtered \<Rightarrow> Some (ui\<lparr>issues := filtered, selectedIssue := - 1\<rparr>))"

text \<open>The value of \<^verbatim>\<open>teamID\<close> in \<^verbatim>\<open>refreshIssues\<close>.\<close>

definition teamID_of :: "UI \<Rightarrow> string" where
  "teamID_of ui =
     (if currentTeam ui \<ge> 0 \<and> currentTeam ui < int (length (teams ui))
      then Team_ID (teams ui ! nat (currentTeam ui)) else [])"

definition refreshIssues :: "lowercasing \<Rightarrow> Remote \<Rightarrow> UI \<Rightarrow> UI option" where
  "refreshIssues toLower remote ui =
     refilter toLower
       (case client ui of
          None \<Rightarrow> ui
        | Some c \<Rightarrow>
            (case GetIssues remote c (teamID_of ui) of
               Inr fetchedIssues \<Rightarrow> ui\<lparr>allIssues := fetchedIssues\<rparr>
             | Inl e \<Rightarrow>
                 ui\<lparr>allIssues := [Issue_with_Title (''Error loading issues: '' @ e)]\<rparr>))"

text \<open>\<open>cy\<close> is the cursor row of the issues view.\<close>

definition selectIssue :: "int \<Rightarrow> UI \<Rightarrow> UI" where
  "selectIssue cy ui =
     (if cy \<ge> 0 \<and> cy < int (length (issues ui)) then ui\<lparr>selectedIssue := cy\<rparr> else ui)"

definition toggleHelp :: "UI \<Rightarrow> UI" where
  "toggleHelp ui = ui\<lparr>showHelp := \<not> showHelp ui\<rparr>"

definition toggleAssigned :: "lowercasing \<Rightarrow> UI \<Rightarrow> UI option" where
  "toggleAssigned toLower ui = refilter toLower (ui\<lparr>assignedToMe := \<not> assignedToMe ui\<rparr>)"

definition toggleSearch :: "UI \<Rightarrow> UI" where
  "toggleSearch ui = ui\<lparr>showSearch := \<not> showSearch ui\<rparr>"

text \<open>
  \<open>v\<close> is the view the handler is called with: \<open>None\<close> for a nil view, otherwise its
  buffer.
\<close>

definition closeSearch :: "lowercasing \<Rightarrow> string option \<Rightarrow> UI \<Rightarrow> UI option" where
  "closeSearch toLower v ui =
     (case v of
        None \<Rightarrow> Some (ui\<lparr>showSearch := False\<rparr>)
      | Some buffer \<Rightarrow>
          (case refilter toLower (ui\<lparr>searchString := TrimSpace buffer\<rparr>) of
             None \<Rightarrow> None
           | Some ui' \<Rightarrow> Some (ui'\<lparr>showSearch := False\<rparr>)))"

definition cancelSearch :: "lowercasing \<Rightarrow> UI \<Rightarrow> UI option" where
  "cancelSearch toLower ui =
     (case refilter toLower (ui\<lparr>searchString := []\<rparr>) of
        None \<Rightarrow> None
      | Some ui' \<Rightarrow> Some (ui'\<lparr>showSearch := False\<rparr>))"

definition prevView :: "lowercasing \<Rightarrow> UI \<Rightarrow> UI option" where
  "prevView toLower ui =
     (let cv = currentView ui - 1;
          cv = (if cv < 0 then int (length (views ui)) - 1 else cv)
      in refilter toLower (ui\<lparr>currentView := cv\<rparr>))"

definition nextView :: "lowercasing \<Rightarrow> UI \<Rightarrow> UI option" where
  "nextView toLower ui =
     (let cv = currentView ui + 1;
          cv = (if cv \<ge> int (length (views ui)) then 0 else cv)
      in refilter toLower (ui\<lparr>currentView := cv\<rparr>))"

definition prevTeam :: "lowercasing \<Rightarrow> Remote \<Rightarrow> UI \<Rightarrow> UI option" where
  "prevTeam toLower remote ui =
     (if length (teams ui) = 0 then Some ui
      else let ct = currentTeam ui - 1;
               ct = (if ct < 0 then int (length (teams ui)) - 1 else ct)
           in refreshIssues toLower remote (ui\<lparr>currentTeam := ct\<rparr>))"

definition nextTeam :: "lowercasing \<Rightarrow> Remote \<Rightarrow> UI \<Rightarrow> UI option" where
  "nextTeam toLower remote ui =
     (if length (teams ui) = 0 then Some ui
      else let ct = currentTeam ui + 1;
               ct = (if ct \<ge> int (length (teams ui)) then 0 else ct)
           in refreshIssues toLower remote (ui\<lparr>currentTeam := ct\<rparr>))"

subsection \<open>Copying to the clipboard\<close>

text \<open>
  The operating system is outside the repository: \<open>lookPath\<close> tells whether a program
  is on the search path, \<open>runWithStdin\<close> starts a command, writes the text to its
  standard input, closes it and waits, answering with the first error if there is one.
\<close>

record OS =
  lookPath :: "string \<Rightarrow> bool"
  runWithStdin :: "string list \<Rightarrow> string \<Rightarrow> err option"

definition copyToClipboard :: "OS \<Rightarrow> string \<Rightarrow> err option" where
  "copyToClipboard os text =
     (let cmd = (if lookPath os ''xclip'' then [''xclip'', ''-selection'', ''clipboard'']
                 else if lookPath os ''xsel'' then [''xsel'', ''--clipboard'', ''--input'']
                 else if lookPath os ''wl-copy'' then [''wl-copy'']
                 else [''pbcopy''])
      in runWithStdin os cmd text)"

text \<open>A handler returns its error and leaves the struct as it then is.\<close>

definition copyURL :: "OS \<Rightarrow> UI \<Rightarrow> err option \<times> UI" where
  "copyURL os ui =
     (if selectedIssue ui \<ge> 0 \<and> selectedIssue ui < int (length (issues ui))
      then (let issue = issues ui ! nat (selectedIssue ui)
            in if URL issue \<noteq> [] then (copyToClipboard os (URL issue), ui) else (None, ui))
      else (None, ui))"

definition copyBranch :: "OS \<Rightarrow> UI \<Rightarrow> err option \<times> UI" where
  "copyBranch os ui =
     (if selectedIssue ui \<ge> 0 \<and> selectedIssue ui < int (length (issues ui))
      then (let issue = issues ui ! nat (selectedIssue ui)
            in if BranchName issue \<noteq> []
               then (copyToClipboard os (BranchName issue), ui) else (None, ui))
      else (None, ui))"

subsection \<open>\<^verbatim>\<open>NewUI\<close>\<close>

text \<open>
  \<open>guiErr\<close> is the error of setting up the terminal and the key bindings, if any; the
  struct is the same whether it comes before or after the fetches.
\<close>

definition NewUI :: "err option \<Rightarrow> Remote \<Rightarrow> Client option \<Rightarrow> err + UI" where
  "NewUI guiErr remote cl =
     (case guiErr of
        Some e \<Rightarrow> Inl e
      | None \<Rightarrow>
          (let fetchedTeams = (case cl of
                                 None \<Rightarrow> []
                               | Some c \<Rightarrow> (case GetTeams remote c of Inr ts \<Rightarrow> ts | Inl e \<Rightarrow> []));
               teamID = (if length fetchedTeams > 0 then Team_ID (fetchedTeams ! 0) else []);
               fetched = (case cl of
                            None \<Rightarrow> Inl ''no client''
                          | Some c \<Rightarrow> GetIssues remote c teamID);
               vid = (case cl of
                        None \<Rightarrow> []
                      | Some c \<Rightarrow> (case GetViewer remote c of Inr v \<Rightarrow> Viewer_ID v | Inl e \<Rightarrow> []));
               shown = (case fetched of
                          Inr fetchedIssues \<Rightarrow> fetchedIssues
                        | Inl e \<Rightarrow> [Issue_with_Title (''Error loading issues: '' @ e)])
           in Inr \<lparr>client = cl, issues = shown, allIssues = shown, selectedIssue = - 1,
                   showHelp = False, showSearch = False, searchString = [],
                   assignedToMe = False, viewerID = vid, currentView = 0, views = Views,
                   teams = fetchedTeams, currentTeam = 0\<rparr>))"

subsection \<open>The initials in a line of the issue list\<close>

text \<open>
  \<^verbatim>\<open>string(b)\<close> of a byte \<open>b\<close> is the UTF-8 text of the code point numbered \<open>b\<close>: the
  byte itself below 128, two bytes from there on.
\<close>

definition string_of_byte :: "char \<Rightarrow> string" where
  "string_of_byte b =
     (if of_char b < (128::nat) then [b]
      else [char_of (192 + of_char b div (64::nat)), char_of (128 + of_char b mod (64::nat))])"

text \<open>
  The value of \<^verbatim>\<open>initials\<close> in \<^verbatim>\<open>layout\<close> when the line of \<open>issue\<close> is printed.
  \<^verbatim>\<open>parts[i][0]\<close> panics on an empty part, which is \<open>None\<close>.
\<close>

definition initials :: "Issue \<Rightarrow> string option" where
  "initials issue =
     (if Assignee_Name issue \<noteq> [] then
        (let parts = Fields (Assignee_Name issue) in
         if length parts \<ge> 2 then
           (case (parts ! 0, parts ! 1) of
              (a # _, b # _) \<Rightarrow> Some (string_of_byte a @ string_of_byte b)
            | _ \<Rightarrow> None)
         else if length parts = 1 then
           (if length (parts ! 0) \<ge> 2
            then Some (string_of_byte (parts ! 0 ! 0) @ string_of_byte (parts ! 0 ! 1))
            else Some (parts ! 0))
         else Some ''--'')
      else Some ''--'')"

subsection \<open>Pressing keys in sequence\<close>

text \<open>
  The event loop runs one handler after the other on the same struct; a panic ends the
  run.
\<close>

fun run_keys :: "(UI \<Rightarrow> UI option) list \<Rightarrow> UI \<Rightarrow> UI option" where
  "run_keys [] ui = Some ui"
| "run_keys (h # hs) ui = (case h ui of None \<Rightarrow> None | Some ui' \<Rightarrow> run_keys hs ui')"

subsection \<open>Well-formed states and the states of the examples\<close>

text \<open>
  \<open>view_ok\<close>: the status view is a position in \<open>views\<close>. \<open>team_ok\<close>: the current team
  is a position in a non-empty roster. \<^verbatim>\<open>NewUI\<close> starts with both counters at 0 and
  the handlers keep them inside (\<open>NewUI_ok\<close>, \<open>nextView_step\<close> and the lemmas next to
  it).
\<close>

definition view_ok :: "UI \<Rightarrow> bool" where
  "view_ok ui = (0 \<le> currentView ui \<and> currentView ui < int (length (views ui)))"

definition team_ok :: "UI \<Rightarrow> bool" where
  "team_ok ui = (0 \<le> currentTeam ui \<and> currentTeam ui < int (length (teams ui)))"

text \<open>The three filters of the loop in \<^verbatim>\<open>filterIssues\<close>, for the view name \<open>n\<close>.\<close>

definition passes :: "lowercasing \<Rightarrow> UI \<Rightarrow> string \<Rightarrow> Issue \<Rightarrow> bool" where
  "passes toLower ui n issue =
     ((\<not> assignedToMe ui \<or> Assignee_ID issue = viewerID ui) \<and>
      (n = ''All'' \<or> State_Name issue = n) \<and>
      (searchString ui = [] \<or> Contains (toLower (Title issue)) (toLower (searchString ui))))"

text \<open>The placeholder issue that stands for a failed fetch.\<close>

definition placeholder :: "err \<Rightarrow> Issue" where
  "placeholder e = Issue_with_Title (''Error loading issues: '' @ e)"

text \<open>The rank the sort is meant to follow, as a table.\<close>

definition statusRank :: "string \<Rightarrow> int" where
  "statusRank s =
     (if s = ''In Review'' then 0 else if s = ''In Progress'' then 1
      else if s = ''Blocked'' then 2 else if s = ''Todo'' then 3
      else if s = ''Backlog'' then 4 else 999)"

definition issue_of :: "string \<Rightarrow> string \<Rightarrow> string \<Rightarrow> Issue" where
  "issue_of title state assignee =
     (Issue_with_Title title)\<lparr>State_Name := state, Assignee_ID := assignee\<rparr>"

definition sample_issues :: "Issue list" where
  "sample_issues =
     [issue_of ''Fix Login Bug'' ''Blocked'' ''u1'',
      issue_of ''Write docs'' ''Todo'' [],
      issue_of ''Login page layout'' ''Todo'' ''u2'']"

definition sample_ui :: UI where
  "sample_ui =
     \<lparr>client = Some \<lparr>apiKey = ''key''\<rparr>, issues = sample_issues, allIssues = sample_issues,
      selectedIssue = 1, showHelp = False, showSearch = False, searchString = [],
      assignedToMe = False, viewerID = ''u1'', currentView = 0, views = Views,
      teams = [\<lparr>Team_ID = ''t1'', Team_Name = ''Core'', Team_Key = ''COR''\<rparr>,
               \<lparr>Team_ID = ''t2'', Team_Name = ''Web'', Team_Key = ''WEB''\<rparr>],
      currentTeam = 0\<rparr>"

text \<open>A remote service that is down, and one that answers.\<close>

definition remote_down :: Remote where
  "remote_down =
     \<lparr>Run_viewer = (\<lambda>req. Inl ''timeout''), Run_teams = (\<lambda>req. Inl ''timeout''),
      Run_issues = (\<lambda>req. Inl ''timeout'')\<rparr>"

definition remote_up :: Remote where
  "remote_up =
     \<lparr>Run_viewer = (\<lambda>req. Inr \<lparr>Viewer_ID = ''u1'', Viewer_Name = ''Ann Lee''\<rparr>),
      Run_teams = (\<lambda>req. Inr []),
      Run_issues = (\<lambda>req. Inr sample_issues)\<rparr>"

text \<open>
  A start at which the viewer query fails while teams and issues are answered; the one
  issue has no assignee.
\<close>

definition remote_no_viewer :: Remote where
  "remote_no_viewer =
     \<lparr>Run_viewer = (\<lambda>req. Inl ''timeout''), Run_teams = (\<lambda>req. Inr []),
      Run_issues = (\<lambda>req. Inr [issue_of ''Write docs'' ''Todo'' []])\<rparr>"

text \<open>A service that answers with four issues in the order Todo, Blocked, Todo, In Review.\<close>

definition fetch_order :: "Issue list" where
  "fetch_order =
     [issue_of ''A'' ''Todo'' [], issue_of ''B'' ''Blocked'' [],
      issue_of ''C'' ''Todo'' [], issue_of ''D'' ''In Review'' []]"

definition remote_unsorted :: Remote where
  "remote_unsorted =
     \<lparr>Run_viewer = (\<lambda>req. Inl ''timeout''), Run_teams = (\<lambda>req. Inr []),
      Run_issues = (\<lambda>req. Inr fetch_order)\<rparr>"

text \<open>
  The first letter of a UTF-8 text: the bytes of its first code point, whose number the
  lead byte tells.
\<close>

definition first_letter :: "string \<Rightarrow> string" where
  "first_letter s =
     (case s of
        [] \<Rightarrow> []
      | b # _ \<Rightarrow>
          take (if of_char b < (128::nat) then 1 else if of_char b < (224::nat) then 2
                else if of_char b < (240::nat) then 3 else 4) s)"

text \<open>
  An issue assigned to "Emile Zola" written with E acute (U+00C9), which is the two
  bytes C3 89 in UTF-8.
\<close>

definition issue_of_emile :: Issue where
  "issue_of_emile =
     (issue_of ''Rename package'' ''Todo'' ''u3'')
       \<lparr>Assignee_Name := [CHR 0xC3, CHR 0x89] @ ''mile Zola''\<rparr>"

section \<open>Properties\<close>

subsection \<open>Filtering\<close>

lemma filterLoop_filter:
  "filterLoop toLower ui n xs acc =
     acc @ filter (\<lambda>i. (assignedToMe ui \<longrightarrow> Assignee_ID i = viewerID ui) \<and>
                       (n \<noteq> ''All'' \<longrightarrow> State_Name i = n) \<and>
                       (searchString ui \<noteq> [] \<longrightarrow>
                          Contains (toLower (Title i)) (toLower (searchString ui)))) xs"
  by (induction xs arbitrary: acc) auto

lemma passes_unfold:
  "passes toLower ui n =
     (\<lambda>i. (assignedToMe ui \<longrightarrow> Assignee_ID i = viewerID ui) \<and>
          (n \<noteq> ''All'' \<longrightarrow> State_Name i = n) \<and>
          (searchString ui \<noteq> [] \<longrightarrow>
             Contains (toLower (Title i)) (toLower (searchString ui))))"
  by (auto simp: passes_def fun_eq_iff)

lemma filterIssues_passes:
  "index (views ui) (currentView ui) = Some n \<Longrightarrow>
   filterIssues toLower ui = Some (filter (passes toLower ui n) (allIssues ui))"
  by (simp add: filterIssues_def filterLoop_filter passes_unfold)

lemma view_ok_index:
  "view_ok ui \<Longrightarrow> \<exists>n. index (views ui) (currentView ui) = Some n"
  by (simp add: view_ok_def index_def)

lemma index_view_ok:
  "index (views ui) (currentView ui) = Some n \<Longrightarrow> view_ok ui"
  by (simp add: view_ok_def index_def split: if_splits)

lemma refilter_Some:
  "index (views ui) (currentView ui) = Some n \<Longrightarrow>
   refilter toLower ui =
     Some (ui\<lparr>issues := filter (passes toLower ui n) (allIssues ui), selectedIssue := - 1\<rparr>)"
  by (simp add: refilter_def filterIssues_passes)

text \<open>
  C1. Whenever the status view is a position of \<open>views\<close>, with name \<open>statusView\<close>,
  \<^verbatim>\<open>filterIssues\<close> returns a subsequence of \<open>allIssues\<close> in the same order, and it keeps
  exactly the issues that pass the three filters: the assignee id equals the viewer id
  if \<open>assignedToMe\<close> is set, the state name equals \<open>statusView\<close> unless that is "All",
  and the lowercased title contains the lowercased search text if that is not empty.
  \<open>toLower\<close> is the lowercasing: the statement holds for every function in its place,
  so for \<^verbatim>\<open>strings.ToLower\<close> on every text.
\<close>

theorem filterIssues_subsequence:
  assumes "index (views ui) (currentView ui) = Some statusView"
  shows "\<exists>ys. filterIssues toLower ui = Some ys \<and> subseq ys (allIssues ui) \<and>
           ys = filter (\<lambda>issue.
                  (assignedToMe ui \<longrightarrow> Assignee_ID issue = viewerID ui) \<and>
                  (statusView \<noteq> ''All'' \<longrightarrow> State_Name issue = statusView) \<and>
                  (searchString ui \<noteq> [] \<longrightarrow>
                     Contains (toLower (Title issue)) (toLower (searchString ui))))
                (allIssues ui)"
  using assms by (simp add: filterIssues_def filterLoop_filter)

theorem filterIssues_subsequence_witness:
  "index (views (sample_ui\<lparr>searchString := ''LOGIN'', currentView := 4\<rparr>))
         (currentView (sample_ui\<lparr>searchString := ''LOGIN'', currentView := 4\<rparr>)) =
     Some ''Todo'' \<and>
   filterIssues asciiLower (sample_ui\<lparr>searchString := ''LOGIN'', currentView := 4\<rparr>) =
     Some [issue_of ''Login page layout'' ''Todo'' ''u2'']"
proof -
  let ?u = "sample_ui\<lparr>searchString := ''LOGIN'', currentView := 4\<rparr>"
  have h: "index (views ?u) (currentView ?u) = Some ''Todo''"
    by code_simp
  have e: "filter (\<lambda>issue.
                  (assignedToMe ?u \<longrightarrow> Assignee_ID issue = viewerID ?u) \<and>
                  (''Todo'' \<noteq> ''All'' \<longrightarrow> State_Name issue = ''Todo'') \<and>
                  (searchString ?u \<noteq> [] \<longrightarrow>
                     Contains (asciiLower (Title issue)) (asciiLower (searchString ?u))))
                (allIssues ?u) = [issue_of ''Login page layout'' ''Todo'' ''u2'']"
    by code_simp
  from filterIssues_subsequence [OF h, of asciiLower] e h show ?thesis
    by simp
qed

text \<open>
  C2. The claim is that an issue without assignee is dropped under \<open>assignedToMe\<close>
  whatever the viewer id. The loop compares \<open>Assignee_ID\<close> with \<open>viewerID\<close>, and both
  are empty when the issue has no assignee and the viewer is unknown: \<^verbatim>\<open>NewUI\<close>
  leaves \<open>viewerID\<close> empty when \<^verbatim>\<open>GetViewer\<close> fails. Started against
  \<open>remote_no_viewer\<close>, the program shows the unassigned issue after the "my issues" key,
  whatever the lowercasing is (there is no search text).
\<close>

theorem unassigned_kept_for_unknown_viewer:
  "(case NewUI None remote_no_viewer (Some \<lparr>apiKey = ''key''\<rparr>) of
      Inl e \<Rightarrow> None
    | Inr ui \<Rightarrow>
        map_option (\<lambda>ui'. (viewerID ui', assignedToMe ui', issues ui'))
          (toggleAssigned toLower ui)) =
   Some ([], True, [issue_of ''Write docs'' ''Todo'' []])"
  by (simp add: NewUI_def remote_no_viewer_def GetTeams_def GetViewer_def GetIssues_def
      SliceStable_def Let_def issuesRequest_def header_def toggleAssigned_def refilter_def
      filterIssues_def index_def Views_def issue_of_def Issue_with_Title_def)

text \<open>With a known viewer the filter does drop every issue without assignee.\<close>

lemma unassigned_dropped_for_known_viewer:
  assumes "assignedToMe ui" and "viewerID ui \<noteq> []" and "filterIssues toLower ui = Some ys"
    and "issue \<in> set ys"
  shows "Assignee_ID issue \<noteq> []"
proof -
  from assms(3) obtain n where n: "index (views ui) (currentView ui) = Some n"
    by (auto simp: filterIssues_def split: option.splits)
  with assms(3) have "ys = filter (passes toLower ui n) (allIssues ui)"
    by (simp add: filterIssues_passes)
  with assms(1,2,4) show ?thesis
    by (auto simp: passes_def)
qed

text \<open>
  C10. From a state whose status view is a position of \<open>views\<close>, two presses of the
  "my issues" key both complete, the flag is back at its first value, the filter inputs
  are untouched, and the derived list is the one \<^verbatim>\<open>filterIssues\<close> computes from the
  starting state.
\<close>

theorem toggleAssigned_twice:
  assumes "view_ok ui"
  shows "\<exists>u1 u2. toggleAssigned toLower ui = Some u1 \<and> toggleAssigned toLower u1 = Some u2 \<and>
           assignedToMe u1 = (\<not> assignedToMe ui) \<and>
           assignedToMe u2 = assignedToMe ui \<and>
           filterIssues toLower ui = Some (issues u2) \<and>
           allIssues u2 = allIssues ui \<and> currentView u2 = currentView ui \<and>
           searchString u2 = searchString ui \<and> viewerID u2 = viewerID ui"
proof -
  from assms obtain n where n: "index (views ui) (currentView ui) = Some n"
    using view_ok_index by blast
  then show ?thesis
    by (simp add: toggleAssigned_def refilter_def filterIssues_def filterLoop_filter)
qed

theorem toggleAssigned_twice_witness:
  "view_ok sample_ui \<and>
   (\<exists>u1 u2. toggleAssigned asciiLower sample_ui = Some u1 \<and> toggleAssigned asciiLower u1 = Some u2 \<and>
      issues u1 = [issue_of ''Fix Login Bug'' ''Blocked'' ''u1''] \<and>
      assignedToMe u2 = assignedToMe sample_ui \<and> issues u2 = sample_issues)"
proof -
  have h: "view_ok sample_ui"
    by code_simp
  have f: "filterIssues asciiLower sample_ui = Some sample_issues"
    by code_simp
  have g: "map_option issues (toggleAssigned asciiLower sample_ui) =
             Some [issue_of ''Fix Login Bug'' ''Blocked'' ''u1'']"
    by code_simp
  from toggleAssigned_twice [OF h, of asciiLower] f g h show ?thesis
    by auto
qed

subsection \<open>A failed fetch\<close>

lemma HasPrefix_append: "HasPrefix (e @ t) e"
  by (induction e) auto

lemma Contains_self: "Contains e e"
  using HasPrefix_append [of e "[]"] by (cases e) auto

lemma Contains_append: "Contains (p @ e) e"
  by (induction p) (auto simp: Contains_self)

lemma refreshIssues_failure:
  assumes "client ui = Some c" and "GetIssues remote c (teamID_of ui) = Inl e"
  shows "refreshIssues toLower remote ui = refilter toLower (ui\<lparr>allIssues := [placeholder e]\<rparr>)"
  using assms by (simp add: refreshIssues_def placeholder_def)

text \<open>
  C6. When the client is there, the status view is a position of \<open>views\<close> and
  \<^verbatim>\<open>GetIssues\<close> fails with \<open>e\<close>, the refresh completes; \<open>allIssues\<close> is the single
  issue titled "Error loading issues: " followed by \<open>e\<close>, a title that contains \<open>e\<close>;
  \<open>issues\<close> is what \<^verbatim>\<open>filterIssues\<close> computes from the new state; the selection is
  - 1; and with view "All", \<open>assignedToMe\<close> off and no search text, \<open>issues\<close> is that
  same single element.
\<close>

theorem refresh_failure_placeholder:
  assumes "view_ok ui" and "client ui = Some c"
    and "GetIssues remote c (teamID_of ui) = Inl e"
  shows "\<exists>ui'. refreshIssues toLower remote ui = Some ui' \<and>
           allIssues ui' = [Issue_with_Title (''Error loading issues: '' @ e)] \<and>
           Contains (Title (Issue_with_Title (''Error loading issues: '' @ e))) e \<and>
           filterIssues toLower ui' = Some (issues ui') \<and>
           selectedIssue ui' = - 1 \<and>
           (index (views ui) (currentView ui) = Some ''All'' \<and> \<not> assignedToMe ui \<and>
            searchString ui = [] \<longrightarrow> issues ui' = allIssues ui')"
proof -
  from assms(1) obtain n where n: "index (views ui) (currentView ui) = Some n"
    using view_ok_index by blast
  have t: "Contains (Title (Issue_with_Title (''Error loading issues: '' @ e))) e"
    unfolding Issue_with_Title_def using Contains_append [of "''Error loading issues: ''" e]
    by simp
  from n assms(2,3) t show ?thesis
    by (simp add: refreshIssues_def refilter_def filterIssues_def filterLoop_filter)
qed

theorem refresh_failure_placeholder_witness:
  "view_ok sample_ui \<and> client sample_ui = Some \<lparr>apiKey = ''key''\<rparr> \<and>
   GetIssues remote_down \<lparr>apiKey = ''key''\<rparr> (teamID_of sample_ui) = Inl ''timeout'' \<and>
   (\<exists>ui'. refreshIssues asciiLower remote_down sample_ui = Some ui' \<and>
      allIssues ui' = [Issue_with_Title ''Error loading issues: timeout''] \<and>
      issues ui' = [Issue_with_Title ''Error loading issues: timeout''] \<and>
      selectedIssue ui' = - 1)"
proof -
  have h1: "view_ok sample_ui"
    by code_simp
  have h2: "client sample_ui = Some \<lparr>apiKey = ''key''\<rparr>"
    by code_simp
  have h3: "GetIssues remote_down \<lparr>apiKey = ''key''\<rparr> (teamID_of sample_ui) = Inl ''timeout''"
    by code_simp
  have h4: "index (views sample_ui) (currentView sample_ui) = Some ''All'' \<and>
            \<not> assignedToMe sample_ui \<and> searchString sample_ui = []"
    by code_simp
  from refresh_failure_placeholder [OF h1 h2 h3, of asciiLower] h1 h2 h3 h4 show ?thesis
    by auto
qed

text \<open>
  C7. The claim is that after a failed fetch the list handed to the rendering layer is
  never empty: the placeholder that carries the error is always in it.
  \<^verbatim>\<open>refreshIssues\<close> builds the placeholder to show the error and then sends it through
  \<^verbatim>\<open>filterIssues\<close> like a fetched issue; its state name and assignee id are empty. With
  the status view on "Blocked" and the service down, the refresh leaves an empty list
  and the error is shown nowhere, whatever the lowercasing is (there is no search text).
\<close>

theorem placeholder_hidden_by_status_view:
  "map_option (\<lambda>ui'. (allIssues ui', issues ui'))
     (refreshIssues toLower remote_down (sample_ui\<lparr>currentView := 3\<rparr>)) =
   Some ([Issue_with_Title ''Error loading issues: timeout''], [])"
  by (simp add: refreshIssues_def sample_ui_def remote_down_def GetIssues_def refilter_def
      filterIssues_def index_def Views_def Issue_with_Title_def teamID_of_def
      issuesRequest_def header_def)


subsection \<open>What one key press does to the state\<close>

lemma refilter_frame:
  assumes "view_ok ui"
  shows "\<exists>ys. refilter toLower ui = Some (ui\<lparr>issues := ys, selectedIssue := - 1\<rparr>)"
proof -
  from assms obtain n where "index (views ui) (currentView ui) = Some n"
    using view_ok_index by blast
  then show ?thesis
    using refilter_Some by blast
qed

lemma refreshIssues_frame:
  assumes "view_ok ui"
  shows "\<exists>xs ys. refreshIssues toLower remote ui =
           Some (ui\<lparr>allIssues := xs, issues := ys, selectedIssue := - 1\<rparr>)"
proof -
  have "\<exists>xs. refreshIssues toLower remote ui = refilter toLower (ui\<lparr>allIssues := xs\<rparr>)"
  proof (cases "client ui")
    case None
    then have "refreshIssues toLower remote ui = refilter toLower (ui\<lparr>allIssues := allIssues ui\<rparr>)"
      by (simp add: refreshIssues_def)
    then show ?thesis ..
  next
    case (Some c)
    then show ?thesis
      by (cases "GetIssues remote c (teamID_of ui)") (auto simp: refreshIssues_def)
  qed
  then obtain xs where "refreshIssues toLower remote ui = refilter toLower (ui\<lparr>allIssues := xs\<rparr>)" ..
  moreover have "view_ok (ui\<lparr>allIssues := xs\<rparr>)"
    using assms by (simp add: view_ok_def)
  ultimately show ?thesis
    using refilter_frame [of "ui\<lparr>allIssues := xs\<rparr>" toLower] by auto
qed

lemma refreshIssues_resets:
  "view_ok ui \<Longrightarrow> \<exists>ui'. refreshIssues toLower remote ui = Some ui' \<and> selectedIssue ui' = - 1"
  using refreshIssues_frame [of ui toLower remote] by auto

lemma toggleAssigned_resets:
  "view_ok ui \<Longrightarrow> \<exists>ui'. toggleAssigned toLower ui = Some ui' \<and> selectedIssue ui' = - 1"
  using refilter_frame [of "ui\<lparr>assignedToMe := \<not> assignedToMe ui\<rparr>" toLower]
  by (auto simp: toggleAssigned_def view_ok_def)

lemma closeSearch_resets:
  "view_ok ui \<Longrightarrow> \<exists>ui'. closeSearch toLower (Some buffer) ui = Some ui' \<and> selectedIssue ui' = - 1"
  using refilter_frame [of "ui\<lparr>searchString := TrimSpace buffer\<rparr>" toLower]
  by (auto simp: closeSearch_def view_ok_def)

lemma cancelSearch_resets:
  "view_ok ui \<Longrightarrow> \<exists>ui'. cancelSearch toLower ui = Some ui' \<and> selectedIssue ui' = - 1"
  using refilter_frame [of "ui\<lparr>searchString := []\<rparr>" toLower]
  by (auto simp: cancelSearch_def view_ok_def)

lemma prevView_step:
  assumes "view_ok ui"
  shows "\<exists>ys. prevView toLower ui =
           Some (ui\<lparr>currentView := (currentView ui - 1) mod int (length (views ui)),
                    issues := ys, selectedIssue := - 1\<rparr>)"
proof -
  let ?n = "int (length (views ui))"
  let ?cv = "(currentView ui - 1) mod ?n"
  from assms have c: "0 \<le> currentView ui" "currentView ui < ?n"
    by (simp_all add: view_ok_def)
  have cv: "?cv = (if currentView ui - 1 < 0 then ?n - 1 else currentView ui - 1)"
  proof (cases "currentView ui = 0")
    case True
    with c show ?thesis by (simp add: zmod_minus1)
  next
    case False
    with c show ?thesis by simp
  qed
  from c have "0 < ?n"
    by linarith
  then have ok: "view_ok (ui\<lparr>currentView := ?cv\<rparr>)"
    by (simp add: view_ok_def)
  from refilter_frame [OF ok, of toLower] cv show ?thesis
    by (auto simp: prevView_def Let_def)
qed

lemma nextView_step:
  assumes "view_ok ui"
  shows "\<exists>ys. nextView toLower ui =
           Some (ui\<lparr>currentView := (currentView ui + 1) mod int (length (views ui)),
                    issues := ys, selectedIssue := - 1\<rparr>)"
proof -
  let ?n = "int (length (views ui))"
  let ?cv = "(currentView ui + 1) mod ?n"
  from assms have c: "0 \<le> currentView ui" "currentView ui < ?n"
    by (simp_all add: view_ok_def)
  have cv: "?cv = (if currentView ui + 1 \<ge> ?n then 0 else currentView ui + 1)"
  proof (cases "currentView ui + 1 = ?n")
    case True
    then show ?thesis by simp
  next
    case False
    with c show ?thesis by simp
  qed
  from c have "0 < ?n"
    by linarith
  then have ok: "view_ok (ui\<lparr>currentView := ?cv\<rparr>)"
    by (simp add: view_ok_def)
  from refilter_frame [OF ok, of toLower] cv show ?thesis
    by (auto simp: nextView_def Let_def)
qed

lemma prevTeam_step:
  assumes "view_ok ui" and "team_ok ui"
  shows "\<exists>xs ys. prevTeam toLower remote ui =
           Some (ui\<lparr>currentTeam := (currentTeam ui - 1) mod int (length (teams ui)),
                    allIssues := xs, issues := ys, selectedIssue := - 1\<rparr>)"
proof -
  let ?n = "int (length (teams ui))"
  let ?ct = "(currentTeam ui - 1) mod ?n"
  from assms(2) have c: "0 \<le> currentTeam ui" "currentTeam ui < ?n"
    by (simp_all add: team_ok_def)
  then have ne: "length (teams ui) \<noteq> 0"
    by auto
  have ct: "?ct = (if currentTeam ui - 1 < 0 then ?n - 1 else currentTeam ui - 1)"
  proof (cases "currentTeam ui = 0")
    case True
    with c show ?thesis by (simp add: zmod_minus1)
  next
    case False
    with c show ?thesis by simp
  qed
  have ok: "view_ok (ui\<lparr>currentTeam := ?ct\<rparr>)"
    using assms(1) by (simp add: view_ok_def)
  from refreshIssues_frame [OF ok, of toLower remote] ct ne show ?thesis
    by (auto simp: prevTeam_def Let_def)
qed

lemma nextTeam_step:
  assumes "view_ok ui" and "team_ok ui"
  shows "\<exists>xs ys. nextTeam toLower remote ui =
           Some (ui\<lparr>currentTeam := (currentTeam ui + 1) mod int (length (teams ui)),
                    allIssues := xs, issues := ys, selectedIssue := - 1\<rparr>)"
proof -
  let ?n = "int (length (teams ui))"
  let ?ct = "(currentTeam ui + 1) mod ?n"
  from assms(2) have c: "0 \<le> currentTeam ui" "currentTeam ui < ?n"
    by (simp_all add: team_ok_def)
  then have ne: "length (teams ui) \<noteq> 0"
    by auto
  have ct: "?ct = (if currentTeam ui + 1 \<ge> ?n then 0 else currentTeam ui + 1)"
  proof (cases "currentTeam ui + 1 = ?n")
    case True
    then show ?thesis by simp
  next
    case False
    with c show ?thesis by simp
  qed
  have ok: "view_ok (ui\<lparr>currentTeam := ?ct\<rparr>)"
    using assms(1) by (simp add: view_ok_def)
  from refreshIssues_frame [OF ok, of toLower remote] ct ne show ?thesis
    by (auto simp: nextTeam_def Let_def)
qed

subsection \<open>Selection reset\<close>

text \<open>
  C4, as stated, fails: with no teams \<^verbatim>\<open>prevTeam\<close> and \<^verbatim>\<open>nextTeam\<close> return at their
  first line, before the refresh. From a state with three issues, the second one
  selected, and an empty roster, the next-team key leaves the selection at 1.
\<close>

theorem team_keys_keep_selection_without_teams:
  "map_option selectedIssue (nextTeam asciiLower remote_up (sample_ui\<lparr>teams := []\<rparr>)) = Some 1"
  by code_simp

text \<open>
  C4, amended. From a state whose status view is a position of \<open>views\<close>, each of
  refresh, toggle-assigned-to-me, apply-search (called on the search view, whatever its
  buffer), cancel-search, prev-view and next-view completes with the selection at - 1;
  so do prev-team and next-team when there is at least one team. With no team the two
  team keys return the state as it is, and apply-search called with a nil view only
  closes the search bar.
\<close>

theorem selection_reset:
  assumes "view_ok ui"
  shows "(\<exists>ui'. refreshIssues toLower remote ui = Some ui' \<and> selectedIssue ui' = - 1) \<and>
         (\<exists>ui'. toggleAssigned toLower ui = Some ui' \<and> selectedIssue ui' = - 1) \<and>
         (\<exists>ui'. closeSearch toLower (Some buffer) ui = Some ui' \<and> selectedIssue ui' = - 1) \<and>
         (\<exists>ui'. cancelSearch toLower ui = Some ui' \<and> selectedIssue ui' = - 1) \<and>
         (\<exists>ui'. prevView toLower ui = Some ui' \<and> selectedIssue ui' = - 1) \<and>
         (\<exists>ui'. nextView toLower ui = Some ui' \<and> selectedIssue ui' = - 1) \<and>
         (teams ui \<noteq> [] \<longrightarrow>
            (\<exists>ui'. prevTeam toLower remote ui = Some ui' \<and> selectedIssue ui' = - 1) \<and>
            (\<exists>ui'. nextTeam toLower remote ui = Some ui' \<and> selectedIssue ui' = - 1)) \<and>
         (teams ui = [] \<longrightarrow> prevTeam toLower remote ui = Some ui \<and> nextTeam toLower remote ui = Some ui) \<and>
         closeSearch toLower None ui = Some (ui\<lparr>showSearch := False\<rparr>)"
proof -
  have pv: "\<exists>ui'. prevView toLower ui = Some ui' \<and> selectedIssue ui' = - 1"
    using prevView_step [OF assms, of toLower] by auto
  have nv: "\<exists>ui'. nextView toLower ui = Some ui' \<and> selectedIssue ui' = - 1"
    using nextView_step [OF assms, of toLower] by auto
  have pt: "\<exists>ui'. prevTeam toLower remote ui = Some ui' \<and> selectedIssue ui' = - 1"
    if "teams ui \<noteq> []"
  proof -
    have "\<exists>ui'. refreshIssues toLower remote (ui\<lparr>currentTeam := t\<rparr>) = Some ui' \<and>
            selectedIssue ui' = - 1" for t
      using refreshIssues_resets [of "ui\<lparr>currentTeam := t\<rparr>" toLower remote] assms
      by (simp add: view_ok_def)
    with that show ?thesis
      by (simp add: prevTeam_def Let_def)
  qed
  have nt: "\<exists>ui'. nextTeam toLower remote ui = Some ui' \<and> selectedIssue ui' = - 1"
    if "teams ui \<noteq> []"
  proof -
    have "\<exists>ui'. refreshIssues toLower remote (ui\<lparr>currentTeam := t\<rparr>) = Some ui' \<and>
            selectedIssue ui' = - 1" for t
      using refreshIssues_resets [of "ui\<lparr>currentTeam := t\<rparr>" toLower remote] assms
      by (simp add: view_ok_def)
    with that show ?thesis
      by (simp add: nextTeam_def Let_def)
  qed
  have e: "teams ui = [] \<longrightarrow> prevTeam toLower remote ui = Some ui \<and> nextTeam toLower remote ui = Some ui"
    by (simp add: prevTeam_def nextTeam_def)
  have cn: "closeSearch toLower None ui = Some (ui\<lparr>showSearch := False\<rparr>)"
    by (simp add: closeSearch_def)
  from refreshIssues_resets [OF assms, of toLower remote]
    toggleAssigned_resets [OF assms, of toLower]
    closeSearch_resets [OF assms, of toLower buffer]
    cancelSearch_resets [OF assms, of toLower] pv nv pt nt e cn
  show ?thesis
    by blast
qed

theorem selection_reset_witness:
  "view_ok sample_ui \<and> teams sample_ui \<noteq> [] \<and> selectedIssue sample_ui = 1 \<and>
   (\<exists>ui'. nextTeam asciiLower remote_up sample_ui = Some ui' \<and> selectedIssue ui' = - 1 \<and>
      currentTeam ui' = 1) \<and>
   (\<exists>ui'. closeSearch asciiLower (Some '' login '') sample_ui = Some ui' \<and> selectedIssue ui' = - 1 \<and>
      searchString ui' = ''login'')"
proof -
  have h: "view_ok sample_ui"
    by code_simp
  have t: "teams sample_ui \<noteq> [] \<and> selectedIssue sample_ui = 1"
    by code_simp
  have c: "map_option currentTeam (nextTeam asciiLower remote_up sample_ui) = Some 1"
    by code_simp
  have s: "map_option searchString (closeSearch asciiLower (Some '' login '') sample_ui) = Some ''login''"
    by code_simp
  from selection_reset [OF h, of asciiLower remote_up "'' login ''"] h t c s show ?thesis
    by auto
qed

subsection \<open>Cyclic navigation\<close>

lemma run_nextView:
  assumes "view_ok ui"
  shows "\<exists>u. run_keys (replicate k (nextView toLower)) ui = Some u \<and> view_ok u \<and>
           currentView u = (currentView ui + int k) mod int (length (views ui)) \<and>
           views u = views ui"
  using assms
proof (induction k arbitrary: ui)
  case 0
  then show ?case by (simp add: view_ok_def)
next
  case (Suc k)
  let ?n = "int (length (views ui))"
  from Suc.prems have n: "0 < ?n"
    unfolding view_ok_def by linarith
  from nextView_step [OF Suc.prems, of toLower] obtain u1 where
    u1: "nextView toLower ui = Some u1" "currentView u1 = (currentView ui + 1) mod ?n"
      "views u1 = views ui"
    by auto
  with n have "view_ok u1"
    by (simp add: view_ok_def)
  from Suc.IH [OF this] obtain u where
    u: "run_keys (replicate k (nextView toLower)) u1 = Some u" "view_ok u"
      "currentView u = (currentView u1 + int k) mod int (length (views u1))"
      "views u = views u1"
    by auto
  have "(currentView u1 + int k) mod ?n = ((currentView ui + 1) mod ?n + int k) mod ?n"
    using u1(2) by simp
  also have "\<dots> = (currentView ui + 1 + int k) mod ?n"
    by (rule mod_add_left_eq)
  also have "\<dots> = (currentView ui + int (Suc k)) mod ?n"
    by (simp add: add.assoc)
  finally have "(currentView u1 + int k) mod ?n = (currentView ui + int (Suc k)) mod ?n" .
  with u u1 show ?case
    by simp
qed

lemma run_prevView:
  assumes "view_ok ui"
  shows "\<exists>u. run_keys (replicate k (prevView toLower)) ui = Some u \<and> view_ok u \<and>
           currentView u = (currentView ui - int k) mod int (length (views ui)) \<and>
           views u = views ui"
  using assms
proof (induction k arbitrary: ui)
  case 0
  then show ?case by (simp add: view_ok_def)
next
  case (Suc k)
  let ?n = "int (length (views ui))"
  from Suc.prems have n: "0 < ?n"
    unfolding view_ok_def by linarith
  from prevView_step [OF Suc.prems, of toLower] obtain u1 where
    u1: "prevView toLower ui = Some u1" "currentView u1 = (currentView ui - 1) mod ?n"
      "views u1 = views ui"
    by auto
  with n have "view_ok u1"
    by (simp add: view_ok_def)
  from Suc.IH [OF this] obtain u where
    u: "run_keys (replicate k (prevView toLower)) u1 = Some u" "view_ok u"
      "currentView u = (currentView u1 - int k) mod int (length (views u1))"
      "views u = views u1"
    by auto
  have "(currentView u1 - int k) mod ?n = (currentView ui - int (Suc k)) mod ?n"
    using u1(2) by (simp add: mod_diff_left_eq algebra_simps)
  with u u1 show ?case
    by simp
qed

lemma run_nextTeam:
  assumes "view_ok ui" and "team_ok ui"
  shows "\<exists>u. run_keys (map (nextTeam toLower) rs) ui = Some u \<and> view_ok u \<and> team_ok u \<and>
           currentTeam u = (currentTeam ui + int (length rs)) mod int (length (teams ui)) \<and>
           teams u = teams ui"
  using assms
proof (induction rs arbitrary: ui)
  case Nil
  then show ?case by (simp add: team_ok_def)
next
  case (Cons r rs)
  let ?n = "int (length (teams ui))"
  from Cons.prems have n: "0 < ?n"
    unfolding team_ok_def by linarith
  from nextTeam_step [OF Cons.prems, of toLower r] obtain u1 where
    u1: "nextTeam toLower r ui = Some u1" "currentTeam u1 = (currentTeam ui + 1) mod ?n"
      "teams u1 = teams ui" "views u1 = views ui" "currentView u1 = currentView ui"
    by auto
  with n Cons.prems have "view_ok u1" "team_ok u1"
    by (simp_all add: view_ok_def team_ok_def)
  from Cons.IH [OF this] obtain u where
    u: "run_keys (map (nextTeam toLower) rs) u1 = Some u" "view_ok u" "team_ok u"
      "currentTeam u = (currentTeam u1 + int (length rs)) mod int (length (teams u1))"
      "teams u = teams u1"
    by auto
  have "(currentTeam u1 + int (length rs)) mod ?n =
          ((currentTeam ui + 1) mod ?n + int (length rs)) mod ?n"
    using u1(2) by simp
  also have "\<dots> = (currentTeam ui + 1 + int (length rs)) mod ?n"
    by (rule mod_add_left_eq)
  also have "\<dots> = (currentTeam ui + int (length (r # rs))) mod ?n"
    by (simp add: add.assoc)
  finally have "(currentTeam u1 + int (length rs)) mod ?n =
          (currentTeam ui + int (length (r # rs))) mod ?n" .
  with u u1 show ?case
    by simp
qed

lemma run_prevTeam:
  assumes "view_ok ui" and "team_ok ui"
  shows "\<exists>u. run_keys (map (prevTeam toLower) rs) ui = Some u \<and> view_ok u \<and> team_ok u \<and>
           currentTeam u = (currentTeam ui - int (length rs)) mod int (length (teams ui)) \<and>
           teams u = teams ui"
  using assms
proof (induction rs arbitrary: ui)
  case Nil
  then show ?case by (simp add: team_ok_def)
next
  case (Cons r rs)
  let ?n = "int (length (teams ui))"
  from Cons.prems have n: "0 < ?n"
    unfolding team_ok_def by linarith
  from prevTeam_step [OF Cons.prems, of toLower r] obtain u1 where
    u1: "prevTeam toLower r ui = Some u1" "currentTeam u1 = (currentTeam ui - 1) mod ?n"
      "teams u1 = teams ui" "views u1 = views ui" "currentView u1 = currentView ui"
    by auto
  with n Cons.prems have "view_ok u1" "team_ok u1"
    by (simp_all add: view_ok_def team_ok_def)
  from Cons.IH [OF this] obtain u where
    u: "run_keys (map (prevTeam toLower) rs) u1 = Some u" "view_ok u" "team_ok u"
      "currentTeam u = (currentTeam u1 - int (length rs)) mod int (length (teams u1))"
      "teams u = teams u1"
    by auto
  have "(currentTeam u1 - int (length rs)) mod ?n =
          (currentTeam ui - int (length (r # rs))) mod ?n"
    using u1(2) by (simp add: mod_diff_left_eq algebra_simps)
  with u u1 show ?case
    by simp
qed

text \<open>The state \<^verbatim>\<open>NewUI\<close> builds is well-formed.\<close>

lemma NewUI_ok:
  assumes "NewUI guiErr remote cl = Inr ui"
  shows "views ui = Views \<and> view_ok ui \<and> currentView ui = 0 \<and> currentTeam ui = 0 \<and>
         selectedIssue ui = - 1 \<and> issues ui = allIssues ui \<and>
         (teams ui \<noteq> [] \<longrightarrow> team_ok ui)"
proof (cases guiErr)
  case None
  with assms show ?thesis
    by (auto simp: NewUI_def Let_def view_ok_def team_ok_def Views_def)
next
  case (Some e)
  with assms show ?thesis
    by (simp add: NewUI_def)
qed

text \<open>
  C5. From a state whose status view is a position of the six \<open>views\<close>: six presses
  of next-view complete and bring \<open>currentView\<close> back, and so do six presses of
  prev-view; after one press of either, \<open>currentView\<close> is between 0 and 5. If moreover
  the current team is a position of the roster (which is then not empty): as many
  presses of next-team as there are teams, whatever the service answers to each one
  (\<open>rs\<close>), bring \<open>currentTeam\<close> back, and so for prev-team; after one press of either,
  \<open>currentTeam\<close> is between 0 and the number of teams minus 1. Each press leaves
  \<open>views\<close> and \<open>teams\<close> as they are, so the bounds hold after every press of a run.
\<close>

theorem cyclic_navigation:
  assumes "view_ok ui" and "length (views ui) = 6"
  shows "(\<exists>u. run_keys (replicate 6 (nextView toLower)) ui = Some u \<and> currentView u = currentView ui) \<and>
         (\<exists>u. run_keys (replicate 6 (prevView toLower)) ui = Some u \<and> currentView u = currentView ui) \<and>
         (\<exists>u. nextView toLower ui = Some u \<and> 0 \<le> currentView u \<and> currentView u \<le> 5 \<and>
              views u = views ui) \<and>
         (\<exists>u. prevView toLower ui = Some u \<and> 0 \<le> currentView u \<and> currentView u \<le> 5 \<and>
              views u = views ui) \<and>
         (team_ok ui \<longrightarrow>
            (length rs = length (teams ui) \<longrightarrow>
               (\<exists>u. run_keys (map (nextTeam toLower) rs) ui = Some u \<and> currentTeam u = currentTeam ui) \<and>
               (\<exists>u. run_keys (map (prevTeam toLower) rs) ui = Some u \<and> currentTeam u = currentTeam ui)) \<and>
            (\<exists>u. nextTeam toLower r ui = Some u \<and> 0 \<le> currentTeam u \<and>
                 currentTeam u \<le> int (length (teams u)) - 1 \<and> teams u = teams ui \<and>
                 views u = views ui \<and> currentView u = currentView ui) \<and>
            (\<exists>u. prevTeam toLower r ui = Some u \<and> 0 \<le> currentTeam u \<and>
                 currentTeam u \<le> int (length (teams u)) - 1 \<and> teams u = teams ui \<and>
                 views u = views ui \<and> currentView u = currentView ui))"
proof -
  from assms have cv: "0 \<le> currentView ui" "currentView ui < 6"
    by (simp_all add: view_ok_def)
  have n6: "\<exists>u. run_keys (replicate 6 (nextView toLower)) ui = Some u \<and> currentView u = currentView ui"
    using run_nextView [OF assms(1), of 6 toLower] assms(2) cv by auto
  have p6: "\<exists>u. run_keys (replicate 6 (prevView toLower)) ui = Some u \<and> currentView u = currentView ui"
    using run_prevView [OF assms(1), of 6 toLower] assms(2) cv by auto
  have n1: "\<exists>u. nextView toLower ui = Some u \<and> 0 \<le> currentView u \<and> currentView u \<le> 5 \<and>
              views u = views ui"
    using nextView_step [OF assms(1), of toLower] assms(2) by auto
  have p1: "\<exists>u. prevView toLower ui = Some u \<and> 0 \<le> currentView u \<and> currentView u \<le> 5 \<and>
              views u = views ui"
    using prevView_step [OF assms(1), of toLower] assms(2) by auto
  have t: "(length rs = length (teams ui) \<longrightarrow>
               (\<exists>u. run_keys (map (nextTeam toLower) rs) ui = Some u \<and> currentTeam u = currentTeam ui) \<and>
               (\<exists>u. run_keys (map (prevTeam toLower) rs) ui = Some u \<and> currentTeam u = currentTeam ui)) \<and>
            (\<exists>u. nextTeam toLower r ui = Some u \<and> 0 \<le> currentTeam u \<and>
                 currentTeam u \<le> int (length (teams u)) - 1 \<and> teams u = teams ui \<and>
                 views u = views ui \<and> currentView u = currentView ui) \<and>
            (\<exists>u. prevTeam toLower r ui = Some u \<and> 0 \<le> currentTeam u \<and>
                 currentTeam u \<le> int (length (teams u)) - 1 \<and> teams u = teams ui \<and>
                 views u = views ui \<and> currentView u = currentView ui)"
    if tk: "team_ok ui"
  proof -
    from tk have ct: "0 \<le> currentTeam ui" "currentTeam ui < int (length (teams ui))"
      by (simp_all add: team_ok_def)
    then have pos: "0 < int (length (teams ui))"
      by linarith
    have a: "\<exists>u. run_keys (map (nextTeam toLower) rs) ui = Some u \<and> currentTeam u = currentTeam ui"
      if "length rs = length (teams ui)"
      using run_nextTeam [OF assms(1) tk, of toLower rs] that ct by auto
    have b: "\<exists>u. run_keys (map (prevTeam toLower) rs) ui = Some u \<and> currentTeam u = currentTeam ui"
      if "length rs = length (teams ui)"
      using run_prevTeam [OF assms(1) tk, of toLower rs] that ct by auto
    have c: "\<exists>u. nextTeam toLower r ui = Some u \<and> 0 \<le> currentTeam u \<and>
                 currentTeam u \<le> int (length (teams u)) - 1 \<and> teams u = teams ui \<and>
                 views u = views ui \<and> currentView u = currentView ui"
      using nextTeam_step [OF assms(1) tk, of toLower r] pos by auto
    have d: "\<exists>u. prevTeam toLower r ui = Some u \<and> 0 \<le> currentTeam u \<and>
                 currentTeam u \<le> int (length (teams u)) - 1 \<and> teams u = teams ui \<and>
                 views u = views ui \<and> currentView u = currentView ui"
      using prevTeam_step [OF assms(1) tk, of toLower r] pos by auto
    from a b c d show ?thesis
      by blast
  qed
  from n6 p6 n1 p1 t show ?thesis
    by blast
qed


theorem cyclic_navigation_witness:
  "view_ok sample_ui \<and> length (views sample_ui) = 6 \<and> team_ok sample_ui \<and>
   length [remote_up, remote_down] = length (teams sample_ui) \<and>
   (\<exists>u. run_keys (replicate 6 (nextView asciiLower)) sample_ui = Some u \<and> currentView u = 0) \<and>
   (\<exists>u. run_keys (map (nextTeam asciiLower) [remote_up, remote_down]) sample_ui = Some u \<and>
      currentTeam u = 0) \<and>
   map_option currentView (prevView asciiLower sample_ui) = Some 5 \<and>
   map_option currentTeam (prevTeam asciiLower remote_down sample_ui) = Some 1"
proof -
  have h1: "view_ok sample_ui"
    by code_simp
  have h2: "length (views sample_ui) = 6"
    by code_simp
  have h3: "team_ok sample_ui"
    by code_simp
  have h4: "length [remote_up, remote_down] = length (teams sample_ui)"
    by code_simp
  have c: "currentView sample_ui = 0 \<and> currentTeam sample_ui = 0"
    by code_simp
  have p: "map_option currentView (prevView asciiLower sample_ui) = Some 5 \<and>
           map_option currentTeam (prevTeam asciiLower remote_down sample_ui) = Some 1"
    by code_simp
  from cyclic_navigation [OF h1 h2, of asciiLower "[remote_up, remote_down]" remote_down]
    h1 h2 h3 h4 c p
  show ?thesis
    by auto
qed

subsection \<open>The sort in \<^verbatim>\<open>GetIssues\<close>\<close>

lemma mset_sink: "mset (sink lt x rs) = add_mset x (mset rs)"
  by (induction rs) auto

lemma set_sink: "set (sink lt x rs) = insert x (set rs)"
  by (induction rs) auto

lemma filter_sink:
  "filter (\<lambda>i. f i = k) (sink (\<lambda>a b. f a < f b) x rs) =
     (if f x = k then [x] else []) @ filter (\<lambda>i. f i = k) rs"
  for f :: "'a \<Rightarrow> int"
  by (induction rs) auto

lemma sorted_sink:
  "sorted_wrt (\<lambda>a b. f b \<le> f a) rs \<Longrightarrow>
   sorted_wrt (\<lambda>a b. f b \<le> f a) (sink (\<lambda>a b. f a < f b) x rs)"
  for f :: "'a \<Rightarrow> int"
  by (induction rs) (auto simp: set_sink)

lemma mset_sinks: "mset (foldl (\<lambda>rs x. sink lt x rs) acc xs) = mset xs + mset acc"
  by (induction xs arbitrary: acc) (auto simp: mset_sink)

lemma filter_sinks:
  "filter (\<lambda>i. f i = k) (foldl (\<lambda>rs x. sink (\<lambda>a b. f a < f b) x rs) acc xs) =
     rev (filter (\<lambda>i. f i = k) xs) @ filter (\<lambda>i. f i = k) acc"
  for f :: "'a \<Rightarrow> int"
  by (induction xs arbitrary: acc) (auto simp: filter_sink)

lemma sorted_sinks:
  "sorted_wrt (\<lambda>a b. f b \<le> f a) acc \<Longrightarrow>
   sorted_wrt (\<lambda>a b. f b \<le> f a) (foldl (\<lambda>rs x. sink (\<lambda>a b. f a < f b) x rs) acc xs)"
  for f :: "'a \<Rightarrow> int"
  by (induction xs arbitrary: acc) (auto simp: sorted_sink)

lemma SliceStable_mset: "mset (SliceStable lt xs) = mset xs"
  by (simp add: SliceStable_def mset_sinks)

lemma SliceStable_stable:
  "filter (\<lambda>i. f i = k) (SliceStable (\<lambda>a b. f a < f b) xs) = filter (\<lambda>i. f i = k) xs"
  for f :: "'a \<Rightarrow> int"
  by (simp add: SliceStable_def filter_sinks flip: rev_filter)

lemma SliceStable_sorted:
  "sorted (map f (SliceStable (\<lambda>a b. f a < f b) xs))"
  for f :: "'a \<Rightarrow> int"
proof -
  have "sorted_wrt (\<lambda>a b. f b \<le> f a) (foldl (\<lambda>rs x. sink (\<lambda>a b. f a < f b) x rs) [] xs)"
    by (rule sorted_sinks) simp
  then show ?thesis
    by (simp add: SliceStable_def sorted_map sorted_wrt_rev)
qed

lemma stateOrder_statusRank:
  "(case stateOrder s of Some n \<Rightarrow> n | None \<Rightarrow> 999) = statusRank s"
  by (simp add: stateOrder_def statusRank_def)

lemma lessByState_statusRank:
  "lessByState = (\<lambda>a b. statusRank (State_Name a) < statusRank (State_Name b))"
  by (simp add: lessByState_def stateOrder_statusRank fun_eq_iff)

lemma SliceStable_example:
  assumes "State_Name a = ''Todo''" and "State_Name b = ''Blocked''"
    and "State_Name c = ''Todo''" and "State_Name d = ''In Review''"
  shows "SliceStable lessByState [a, b, c, d] = [d, b, a, c]"
  using assms by (simp add: SliceStable_def lessByState_statusRank statusRank_def)

text \<open>
  C3. When the service answers with \<open>nodes\<close>, \<^verbatim>\<open>GetIssues\<close> returns a list that is
  sorted by \<open>statusRank\<close> of the state name (In Review 0, In Progress 1, Blocked 2,
  Todo 3, Backlog 4, anything else 999: the order the closure \<open>lessByState\<close> compares
  by), has the same issues as \<open>nodes\<close>, and keeps the issues of each rank in the
  order of \<open>nodes\<close>. Four issues fetched as Todo, Blocked, Todo, In Review come out as
  the fourth, the second, the first, the third.
\<close>

theorem GetIssues_stable_sort:
  assumes "Run_issues remote (issuesRequest c teamID) = Inr nodes"
  shows "\<exists>ys. GetIssues remote c teamID = Inr ys \<and>
           sorted (map (\<lambda>i. statusRank (State_Name i)) ys) \<and>
           mset ys = mset nodes \<and>
           (\<forall>k. filter (\<lambda>i. statusRank (State_Name i) = k) ys =
                filter (\<lambda>i. statusRank (State_Name i) = k) nodes) \<and>
           (\<forall>a b. lessByState a b = (statusRank (State_Name a) < statusRank (State_Name b))) \<and>
           (\<forall>i0 i1 i2 i3. nodes = [i0, i1, i2, i3] \<and>
              map State_Name nodes = [''Todo'', ''Blocked'', ''Todo'', ''In Review'']
              \<longrightarrow> ys = [i3, i1, i0, i2])"
proof -
  let ?ys = "SliceStable lessByState nodes"
  have g: "GetIssues remote c teamID = Inr ?ys"
    using assms by (simp add: GetIssues_def)
  have s: "sorted (map (\<lambda>i. statusRank (State_Name i)) ?ys)"
    unfolding lessByState_statusRank by (rule SliceStable_sorted)
  have m: "mset ?ys = mset nodes"
    by (rule SliceStable_mset)
  have f: "filter (\<lambda>i. statusRank (State_Name i) = k) ?ys =
             filter (\<lambda>i. statusRank (State_Name i) = k) nodes" for k
    unfolding lessByState_statusRank by (rule SliceStable_stable)
  have l: "lessByState a b = (statusRank (State_Name a) < statusRank (State_Name b))" for a b
    by (simp add: lessByState_statusRank)
  have e: "?ys = [i3, i1, i0, i2]"
    if "nodes = [i0, i1, i2, i3]"
      and "map State_Name nodes = [''Todo'', ''Blocked'', ''Todo'', ''In Review'']"
    for i0 i1 i2 i3
    using that SliceStable_example [of i0 i1 i2 i3] by simp
  from g s m f l e show ?thesis
    by blast
qed

theorem GetIssues_stable_sort_witness:
  "Run_issues remote_unsorted (issuesRequest \<lparr>apiKey = ''key''\<rparr> ''t1'') = Inr fetch_order \<and>
   map State_Name fetch_order = [''Todo'', ''Blocked'', ''Todo'', ''In Review''] \<and>
   GetIssues remote_unsorted \<lparr>apiKey = ''key''\<rparr> ''t1'' =
     Inr [issue_of ''D'' ''In Review'' [], issue_of ''B'' ''Blocked'' [],
          issue_of ''A'' ''Todo'' [], issue_of ''C'' ''Todo'' []] \<and>
   statusRank ''In Review'' = 0 \<and> statusRank ''In Progress'' = 1 \<and>
   statusRank ''Blocked'' = 2 \<and> statusRank ''Todo'' = 3 \<and> statusRank ''Backlog'' = 4 \<and>
   statusRank ''Done'' = 999"
proof -
  have h: "Run_issues remote_unsorted (issuesRequest \<lparr>apiKey = ''key''\<rparr> ''t1'') =
             Inr fetch_order"
    by code_simp
  have n: "fetch_order =
             [issue_of ''A'' ''Todo'' [], issue_of ''B'' ''Blocked'' [],
              issue_of ''C'' ''Todo'' [], issue_of ''D'' ''In Review'' []] \<and>
           map State_Name fetch_order = [''Todo'', ''Blocked'', ''Todo'', ''In Review'']"
    by (simp add: fetch_order_def issue_of_def Issue_with_Title_def)
  have r: "statusRank ''In Review'' = 0 \<and> statusRank ''In Progress'' = 1 \<and>
           statusRank ''Blocked'' = 2 \<and> statusRank ''Todo'' = 3 \<and>
           statusRank ''Backlog'' = 4 \<and> statusRank ''Done'' = 999"
    by (simp add: statusRank_def)
  from GetIssues_stable_sort [OF h] h n r show ?thesis
    by auto
qed

subsection \<open>Copying leaves the state alone\<close>

text \<open>
  C8. Whatever the operating system does with the command (\<open>os\<close>), the state after
  \<^verbatim>\<open>copyURL\<close> and after \<^verbatim>\<open>copyBranch\<close> is the state before, in every field.
\<close>

theorem copy_keeps_state:
  "snd (copyURL os ui) = ui \<and> snd (copyBranch os ui) = ui"
  by (simp add: copyURL_def copyBranch_def Let_def)

subsection \<open>Initials\<close>

lemma fieldsFrom_nonempty: "t \<in> set (fieldsFrom cur s) \<Longrightarrow> t \<noteq> []"
  by (induction cur s rule: fieldsFrom.induct) (auto simp: Let_def split: if_splits)

lemma fieldsFrom_bytes: "t \<in> set (fieldsFrom cur s) \<Longrightarrow> set t \<subseteq> set cur \<union> set s"
proof (induction cur s rule: fieldsFrom.induct)
  case (1 cur)
  then show ?case by (auto split: if_splits)
next
  case (2 cur c s)
  let ?w = "widthOf spaceRunes (c # s)"
  show ?case
  proof (cases "?w > 0")
    case True
    with 2 have "t = cur \<or> t \<in> set (fieldsFrom [] (drop (?w - 1) s))"
      by (auto simp: Let_def split: if_splits)
    then show ?thesis
    proof
      assume "t = cur"
      then show ?thesis by auto
    next
      assume "t \<in> set (fieldsFrom [] (drop (?w - 1) s))"
      with 2 True have "set t \<subseteq> set (drop (?w - 1) s)"
        by (cases "cur = []") (auto simp: Let_def)
      then show ?thesis
        using set_drop_subset [of "?w - 1" s] by auto
    qed
  next
    case False
    with 2 show ?thesis
      by (auto simp: Let_def)
  qed
qed

lemma Fields_nonempty: "t \<in> set (Fields s) \<Longrightarrow> t \<noteq> []"
  unfolding Fields_def by (rule fieldsFrom_nonempty)

lemma Fields_bytes: "t \<in> set (Fields s) \<Longrightarrow> set t \<subseteq> set s"
  unfolding Fields_def using fieldsFrom_bytes [of t "[]" s] by simp

text \<open>
  C9. The claim is the first letter of each of the first two tokens. \<^verbatim>\<open>layout\<close> takes
  the first byte of a token, \<^verbatim>\<open>parts[0][0]\<close>, and \<^verbatim>\<open>string\<close> of a byte is the code
  point with that number. For "Emile Zola" written with E acute the tokens are "Emile"
  and "Zola"; the first letters are E acute (bytes C3 89) and Z, and the program prints
  the bytes C3 83 5A: A tilde (U+00C3) and Z.
\<close>

theorem initials_of_emile:
  "Fields (Assignee_Name issue_of_emile) = [[CHR 0xC3, CHR 0x89] @ ''mile'', ''Zola''] \<and>
   initials issue_of_emile = Some [CHR 0xC3, CHR 0x83, CHR ''Z''] \<and>
   first_letter ([CHR 0xC3, CHR 0x89] @ ''mile'') @ first_letter ''Zola'' =
     [CHR 0xC3, CHR 0x89, CHR ''Z'']"
  by code_simp

text \<open>
  On a name of ASCII bytes the program does what the claim says: the placeholder for no
  name (and for a name of spaces only), the first two bytes of a single token, the
  first bytes of the first two tokens otherwise.
\<close>

lemma initials_ascii:
  assumes "\<forall>b\<in>set (Assignee_Name issue). of_char b < (128::nat)"
  shows "initials issue =
           Some (if Assignee_Name issue = [] then ''--''
                 else case Fields (Assignee_Name issue) of
                        [] \<Rightarrow> ''--''
                      | [t] \<Rightarrow> take 2 t
                      | t1 # t2 # _ \<Rightarrow> [hd t1, hd t2])"
proof (cases "Fields (Assignee_Name issue)")
  case Nil
  then show ?thesis
    by (simp add: initials_def)
next
  case (Cons t1 ts)
  then have t1: "t1 \<noteq> []" "\<forall>b\<in>set t1. of_char b < (128::nat)"
    using Fields_nonempty [of t1 "Assignee_Name issue"]
      Fields_bytes [of t1 "Assignee_Name issue"] assms by auto
  show ?thesis
  proof (cases ts)
    case Nil
    show ?thesis
    proof (cases "length t1 \<ge> 2")
      case True
      then obtain a b r where "t1 = a # b # r"
        by (cases t1; cases "tl t1") auto
      with t1 Cons Nil show ?thesis
        by (simp add: initials_def string_of_byte_def)
    next
      case False
      with t1 Cons Nil show ?thesis
        by (simp add: initials_def)
    qed
  next
    case (Cons t2 ts')
    with \<open>Fields (Assignee_Name issue) = t1 # ts\<close>
    have t2: "t2 \<noteq> []" "\<forall>b\<in>set t2. of_char b < (128::nat)"
      using Fields_nonempty [of t2 "Assignee_Name issue"]
        Fields_bytes [of t2 "Assignee_Name issue"] assms by auto
    from t1 t2 obtain a r b r' where "t1 = a # r" "t2 = b # r'"
      by (cases t1; cases t2) auto
    with t1 t2 Cons \<open>Fields (Assignee_Name issue) = t1 # ts\<close> show ?thesis
      by (simp add: initials_def string_of_byte_def)
  qed
qed

end
